theory Spec2Isabelle
  imports Complex_Main "HOL-Library.Word"
begin

unbundle bit_operations_syntax

section \<open>Clock divider\<close>

text \<open>
  \<^verbatim>\<open>clock_divider( inf, outf, max_err )\<close> of \<^verbatim>\<open>uart.py\<close>. Python integers are
  \<^typ>\<open>int\<close>; \<^verbatim>\<open>//\<close> is floor division, as \<open>div\<close> on \<^typ>\<open>int\<close>, and raises
  \<^verbatim>\<open>ZeroDivisionError\<close> on a zero divisor. Both failures of the function raise
  \<^verbatim>\<open>ValueError\<close>; they differ in the line printed before, which the model returns
  next to the result. The source's \<open>inf\<close>, \<open>outf\<close> and \<open>div\<close> are names of HOL, so they
  are \<open>infreq\<close>, \<open>outfreq\<close> and \<open>dv\<close> here.

  The error rate is computed in double precision. A finite double is a rational number, and
  every floating-point operation returns the exact result rounded to a double. The rounding
  \<open>rd\<close> is a parameter of the model: it is applied where Python converts an integer to a
  float and after each float operation. \<open>max_err\<close> is a finite double, hence a rational
  number too.

  The division \<^verbatim>\<open>inf / div\<close> of two integers and the conversion of \<open>outf\<close> to a float
  raise \<^verbatim>\<open>OverflowError\<close> when the rounded result is beyond the largest double, that is
  from \<open>2 ^ 1024 - 2 ^ 970\<close> on, half a unit in the last place above the largest double.
  Past these two, the operands of the subtraction have the same sign and the divisor is at
  least 1 in magnitude, so that the subtraction and the last division stay in range.
\<close>

datatype error = ValueError | ZeroDivisionError | OverflowError

datatype message =
    Invalid_frequencies int int
  | Error_rate_too_high rat rat

definition overflows :: "rat \<Rightarrow> bool" where
  "overflows x = (2 ^ 1024 - 2 ^ 970 \<le> \<bar>x\<bar>)"

definition rel_err :: "(rat \<Rightarrow> rat) \<Rightarrow> int \<Rightarrow> int \<Rightarrow> int \<Rightarrow> rat" where
  "rel_err rd infreq dv outfreq =
     rd (rd (rd (of_int infreq / of_int dv) - rd (of_int outfreq)) / rd (of_int outfreq))"

definition clock_divider ::
  "(rat \<Rightarrow> rat) \<Rightarrow> int \<Rightarrow> int \<Rightarrow> rat \<Rightarrow> message list \<times> (error + int)" where
  "clock_divider rd infreq outfreq max_err =
     (if outfreq = 0 then ([], Inl ZeroDivisionError)
      else
        let dv = infreq div outfreq in
        if dv < 1 then ([Invalid_frequencies infreq outfreq], Inl ValueError)
        else if overflows (of_int infreq / of_int dv) \<or> overflows (of_int outfreq)
          then ([], Inl OverflowError)
        else
          let err = rel_err rd infreq dv outfreq in
          if err > max_err then ([Error_rate_too_high err max_err], Inl ValueError)
          else ([], Inr dv))"

text \<open>The rounding that changes nothing: exact wherever the results are doubles.\<close>

definition exact :: "rat \<Rightarrow> rat" where
  "exact x = x"

text \<open>
  Rounding to the nearest double, ties to the even significand (IEEE 754 binary64, the
  arithmetic of Python's \<^verbatim>\<open>float\<close>). A double is an integer of at most 53 bits times a
  power of 2, and the exponent of that power is at least \<open>-1074\<close>. For \<open>x\<close> with
  \<open>2 ^ e \<le> \<bar>x\<bar> < 2 ^ (e + 1)\<close> the doubles next to \<open>x\<close> are multiples of \<open>2 ^ (e - 52)\<close>.
  The range is checked apart, by \<open>overflows\<close>.
\<close>

definition pow2 :: "int \<Rightarrow> rat" where
  "pow2 e = (if 0 \<le> e then 2 ^ nat e else 1 / 2 ^ nat (- e))"

function int_bit_length :: "int \<Rightarrow> int" where
  "int_bit_length n = (if n \<le> 0 then 0 else 1 + int_bit_length (n div 2))"
  by pat_completeness auto
termination
  by (relation "measure nat") auto

declare int_bit_length.simps [simp del]

text \<open>For positive \<open>x\<close>, the \<open>e\<close> with \<open>2 ^ e \<le> x < 2 ^ (e + 1)\<close>.\<close>

definition floor_log2 :: "rat \<Rightarrow> int" where
  "floor_log2 x =
     (let (p, q) = quotient_of x;
          e = int_bit_length p - int_bit_length q
      in if pow2 e \<le> x then e else e - 1)"

definition round_half_even :: "rat \<Rightarrow> int" where
  "round_half_even r =
     (let n = \<lfloor>r\<rfloor>; f = r - of_int n
      in if f < 1 / 2 then n else if 1 / 2 < f then n + 1
         else if even n then n else n + 1)"

definition round_double :: "rat \<Rightarrow> rat" where
  "round_double x =
     (if x = 0 then 0
      else
        let q = max (floor_log2 \<bar>x\<bar> - 52) (- 1074)
        in sgn x * of_int (round_half_even (\<bar>x\<bar> / pow2 q)) * pow2 q)"

section \<open>Signals and their widths\<close>

text \<open>
  \<^verbatim>\<open>Signal( range( clk_div ) )\<close> is an unsigned signal wide enough for \<open>clk_div - 1\<close>:
  the number of binary digits of \<open>clk_div - 1\<close>, and one bit for the value 0. An assignment
  to a signal keeps the low bits that fit. The modules are built with the \<open>clk_div\<close> that
  \<open>clock_divider\<close> returned, which is at least 1.
\<close>

fun bit_length :: "nat \<Rightarrow> nat" where
  "bit_length n = (if n = 0 then 0 else Suc (bit_length (n div 2)))"

declare bit_length.simps [simp del]

definition bits_for :: "nat \<Rightarrow> nat" where
  "bits_for n = (if n = 0 then 1 else bit_length n)"

definition count_width :: "nat \<Rightarrow> nat" where
  "count_width clk_div = bits_for (clk_div - 1)"

definition count_next :: "nat \<Rightarrow> nat \<Rightarrow> nat" where
  "count_next clk_div c =
     (if c = clk_div - 1 then 0 else (c + 1) mod 2 ^ count_width clk_div)"

section \<open>UART receiver\<close>

datatype fsm_state = RX_IDLE | RX_START | RX_DATA | RX_STOP | RX_FULL | RX_ERROR

text \<open>
  The registers of \<^verbatim>\<open>UART_RX\<close>. Each is 0 at reset, and the state machine starts in its
  first state. \<open>rx_ack\<close> and \<open>rx_fix\<close> are registers too: the test bench sets them, and the
  state machine assigns them when it leaves the idle state.
\<close>

record uart_rx =
  fsm :: fsm_state
  rx_count :: nat
  rx_buf :: "8 word"
  rx_bit :: "3 word"
  rx_ack :: bool
  rx_fix :: bool

definition rx_reset :: uart_rx where
  "rx_reset = \<lparr>fsm = RX_IDLE, rx_count = 0, rx_buf = 0, rx_bit = 0,
               rx_ack = False, rx_fix = False\<rparr>"

text \<open>\<^verbatim>\<open>rx_strobe\<close> is combinational: it follows the counter within the same cycle.\<close>

definition rx_strobe :: "uart_rx \<Rightarrow> bool" where
  "rx_strobe s = (rx_count s = 0)"

text \<open>\<^verbatim>\<open>Cat( rx_buf[ 1 : 8 ], rx )\<close>: bits 1 to 7 of the buffer move down, \<open>rx\<close> is bit 7.\<close>

definition cat_rx :: "8 word \<Rightarrow> bool \<Rightarrow> 8 word" where
  "cat_rx buf rx = drop_bit 1 buf OR push_bit 7 (of_bool rx)"

text \<open>
  One clock edge of \<^verbatim>\<open>UART_RX.elaborate\<close>, with the level \<open>rx\<close> of the line. Every right-hand
  side reads the registers before the edge. The counter is assigned first; an assignment
  in the state machine comes later in the module and overrides it.
\<close>

definition rx_step :: "nat \<Rightarrow> bool \<Rightarrow> uart_rx \<Rightarrow> uart_rx" where
  "rx_step clk_div rx s =
     (let s1 = s\<lparr>rx_count := count_next clk_div (rx_count s)\<rparr> in
      case fsm s of
        RX_IDLE \<Rightarrow>
          if \<not> rx then
            s1\<lparr>fsm := RX_START, rx_ack := False, rx_fix := False, rx_bit := 0,
               rx_buf := 0, rx_count := (clk_div div 2) mod 2 ^ count_width clk_div\<rparr>
          else s1
      | RX_START \<Rightarrow>
          if rx_strobe s then s1\<lparr>fsm := RX_DATA\<rparr> else s1
      | RX_DATA \<Rightarrow>
          if rx_strobe s then
            s1\<lparr>rx_buf := cat_rx (rx_buf s) rx, rx_bit := rx_bit s + 1,
               fsm := (if rx_bit s = 7 then RX_STOP else RX_DATA)\<rparr>
          else s1
      | RX_STOP \<Rightarrow>
          if rx_strobe s then (if rx then s1\<lparr>fsm := RX_FULL\<rparr> else s1\<lparr>fsm := RX_ERROR\<rparr>)
          else s1
      | RX_FULL \<Rightarrow>
          if rx_ack s then s1\<lparr>fsm := RX_IDLE\<rparr>
          else if \<not> rx then s1\<lparr>fsm := RX_ERROR\<rparr>
          else s1
      | RX_ERROR \<Rightarrow>
          if rx_fix s then s1\<lparr>fsm := RX_IDLE\<rparr> else s1)"

text \<open>The receiver over a sequence of clock edges, one line level for each.\<close>

fun run :: "nat \<Rightarrow> bool list \<Rightarrow> uart_rx \<Rightarrow> uart_rx" where
  "run clk_div [] s = s"
| "run clk_div (rx # rxs) s = run clk_div rxs (rx_step clk_div rx s)"

text \<open>\<open>after clk_div rxs n\<close> is the receiver, from reset, after the first \<open>n\<close> edges.\<close>

definition after :: "nat \<Rightarrow> bool list \<Rightarrow> nat \<Rightarrow> uart_rx" where
  "after clk_div rxs n = run clk_div (take n rxs) rx_reset"

text \<open>The registers after each clock edge in turn.\<close>

fun trace :: "nat \<Rightarrow> bool list \<Rightarrow> uart_rx \<Rightarrow> uart_rx list" where
  "trace clk_div [] s = []"
| "trace clk_div (rx # rxs) s =
     rx_step clk_div rx s # trace clk_div rxs (rx_step clk_div rx s)"

section \<open>Test bench\<close>

text \<open>
  The test bench drives the receiver with \<^verbatim>\<open>yield Tick()\<close> and with assignments to
  \<open>rx\<close>, \<open>rx_ack\<close> and \<open>rx_fix\<close>, which take effect before the next clock edge.
\<close>

datatype command = Tick | Set_rx bool | Set_ack bool | Set_fix bool

fun exec :: "nat \<Rightarrow> command \<Rightarrow> bool \<times> uart_rx \<Rightarrow> bool \<times> uart_rx" where
  "exec clk_div Tick (rx, s) = (rx, rx_step clk_div rx s)"
| "exec clk_div (Set_rx v) (rx, s) = (v, s)"
| "exec clk_div (Set_ack v) (rx, s) = (rx, s\<lparr>rx_ack := v\<rparr>)"
| "exec clk_div (Set_fix v) (rx, s) = (rx, s\<lparr>rx_fix := v\<rparr>)"

fun exec_all :: "nat \<Rightarrow> command list \<Rightarrow> bool \<times> uart_rx \<Rightarrow> bool \<times> uart_rx" where
  "exec_all clk_div [] c = c"
| "exec_all clk_div (x # xs) c = exec_all clk_div xs (exec clk_div x c)"

text \<open>
  \<^verbatim>\<open>uart_rx_byte( uart, val )\<close>: the line level at each clock edge of the helper. The
  start bit is low for \<open>clk_div\<close> edges, then bit \<open>i\<close> of \<open>val\<close> for \<open>i\<close> from 0 to 7, each
  for \<open>clk_div\<close> edges, then the stop bit is high for \<open>clk_div\<close> edges.
\<close>

definition uart_rx_byte :: "nat \<Rightarrow> 8 word \<Rightarrow> bool list" where
  "uart_rx_byte clk_div val =
     replicate clk_div False
     @ concat (map (\<lambda>i. replicate clk_div (bit val i)) [0..<8])
     @ replicate clk_div True"

section \<open>UART transmitter\<close>

record uart_tx =
  tx :: bool
  tx_count :: nat
  tx_buf :: "8 word"
  tx_bit :: "3 word"
  tx_fix :: bool

definition tx_reset :: uart_tx where
  "tx_reset = \<lparr>tx = False, tx_count = 0, tx_buf = 0, tx_bit = 0, tx_fix = False\<rparr>"

definition tx_strobe :: "uart_tx \<Rightarrow> bool" where
  "tx_strobe s = (tx_count s = 0)"

text \<open>One clock edge of \<^verbatim>\<open>UART_TX.elaborate\<close>: the counter is its only assignment.\<close>

definition tx_step :: "nat \<Rightarrow> uart_tx \<Rightarrow> uart_tx" where
  "tx_step clk_div s = s\<lparr>tx_count := count_next clk_div (tx_count s)\<rparr>"

section \<open>Auxiliary facts\<close>

subsection \<open>The counter fits its signal\<close>

lemma bit_length_bound: "n < 2 ^ bit_length n"
proof (induction n rule: bit_length.induct)
  case (1 n)
  show ?case
  proof (cases "n = 0")
    case True
    then show ?thesis by (simp add: bit_length.simps)
  next
    case False
    with 1 have "n div 2 < 2 ^ bit_length (n div 2)" by simp
    then have "n < 2 * 2 ^ bit_length (n div 2)" by linarith
    with False show ?thesis by (subst bit_length.simps) simp
  qed
qed

lemma bits_for_bound: "n < 2 ^ bits_for n"
  by (simp add: bits_for_def bit_length_bound)

lemma count_fits: "c < clk_div \<Longrightarrow> c mod 2 ^ count_width clk_div = c"
proof -
  assume "c < clk_div"
  then have "c \<le> clk_div - 1" by simp
  also have "clk_div - 1 < 2 ^ count_width clk_div"
    by (simp add: count_width_def bits_for_bound)
  finally show ?thesis by simp
qed

lemma count_next_mod:
  "c < clk_div \<Longrightarrow> count_next clk_div c = Suc c mod clk_div"
proof -
  assume c: "c < clk_div"
  show ?thesis
  proof (cases "c = clk_div - 1")
    case True
    with c have "Suc c = clk_div" by simp
    with True show ?thesis by (simp add: count_next_def)
  next
    case False
    with c have "Suc c < clk_div" by simp
    with False show ?thesis by (simp add: count_next_def count_fits)
  qed
qed

lemma tx_count_iter:
  "0 < clk_div \<Longrightarrow> tx_count ((tx_step clk_div ^^ n) tx_reset) = n mod clk_div"
proof (induction n)
  case 0
  then show ?case by (simp add: tx_reset_def)
next
  case (Suc n)
  then have "tx_count ((tx_step clk_div ^^ n) tx_reset) < clk_div" by simp
  then show ?case using Suc by (simp add: tx_step_def count_next_mod mod_Suc)
qed

subsection \<open>One multiple of the period in each window\<close>

lemma window_le:
  fixes d :: nat
  assumes "t \<le> u" "u < n + d" "n \<le> t" "t mod d = 0" "u mod d = 0"
  shows "t = u"
proof -
  from assms have "d dvd u - t" by (simp add: dvd_diff_nat mod_eq_0_iff_dvd)
  moreover from assms have "u - t < d" by simp
  ultimately have "u - t = 0" using nat_dvd_not_less by blast
  with assms show ?thesis by simp
qed

lemma window_unique:
  fixes d :: nat
  assumes "0 < d"
  shows "\<exists>!t. n \<le> t \<and> t < n + d \<and> t mod d = 0"
proof -
  define t where "t = (if n mod d = 0 then n else n + (d - n mod d))"
  have r: "n mod d < d" using assms by simp
  have 1: "n \<le> t" by (simp add: t_def)
  have 2: "t < n + d" using assms r by (simp add: t_def)
  have "(n + (d - n mod d)) mod d = (n mod d + (d - n mod d)) mod d"
    by (simp add: mod_add_left_eq)
  also have "\<dots> = 0" using r by simp
  finally have 3: "t mod d = 0" by (simp add: t_def)
  have 4: "u = t" if "n \<le> u" "u < n + d" "u mod d = 0" for u
  proof (cases "t \<le> u")
    case True
    with that 1 3 window_le[of t u n d] show ?thesis by simp
  next
    case False
    then have "u \<le> t" by simp
    with that 2 3 window_le[of u t n d] show ?thesis by simp
  qed
  show ?thesis
  proof (rule ex1I[of _ t])
    show "n \<le> t \<and> t < n + d \<and> t mod d = 0" by (intro conjI 1 2 3)
  next
    fix u assume "n \<le> u \<and> u < n + d \<and> u mod d = 0"
    then show "u = t" by (elim conjE) (rule 4)
  qed
qed

subsection \<open>Running the receiver\<close>

lemma run_append: "run clk_div (xs @ ys) s = run clk_div ys (run clk_div xs s)"
  by (induction xs arbitrary: s) simp_all

lemma after_0: "after clk_div rxs 0 = rx_reset"
  by (simp add: after_def)

lemma after_Suc:
  "n < length rxs \<Longrightarrow>
   after clk_div rxs (Suc n) = rx_step clk_div (rxs ! n) (after clk_div rxs n)"
  by (simp add: after_def take_Suc_conv_app_nth run_append)

lemma rx_count_free:
  "\<not> (fsm s = RX_IDLE \<and> \<not> rx) \<Longrightarrow>
   rx_count (rx_step clk_div rx s) = count_next clk_div (rx_count s)"
  by (cases "fsm s") (simp_all add: rx_step_def Let_def)

lemma rx_count_after:
  assumes "0 < clk_div"
  shows "n \<le> length rxs \<Longrightarrow>
     (\<forall>k<n. \<not> (fsm (after clk_div rxs k) = RX_IDLE \<and> \<not> rxs ! k)) \<Longrightarrow>
     rx_count (after clk_div rxs n) = n mod clk_div"
proof (induction n)
  case 0
  then show ?case by (simp add: after_0 rx_reset_def)
next
  case (Suc n)
  then have ih: "rx_count (after clk_div rxs n) = n mod clk_div" by simp
  then have lt: "rx_count (after clk_div rxs n) < clk_div" using assms by simp
  from Suc.prems have free: "\<not> (fsm (after clk_div rxs n) = RX_IDLE \<and> \<not> rxs ! n)" by blast
  from Suc.prems have "n < length rxs" by simp
  then show ?case
    using ih rx_count_free[OF free, of clk_div] count_next_mod[OF lt]
    by (simp add: after_Suc mod_Suc)
qed

lemma less_two_cases: "k < (2::nat) \<Longrightarrow> k = 0 \<or> k = Suc 0"
  by auto

lemma nth_trace:
  "n < length rxs \<Longrightarrow> trace clk_div rxs s ! n = run clk_div (take (Suc n) rxs) s"
proof (induction rxs arbitrary: n s)
  case Nil
  then show ?case by simp
next
  case (Cons rx rxs)
  then show ?case by (cases n) simp_all
qed

lemma nth_trace_after:
  "n < length rxs \<Longrightarrow> trace clk_div rxs rx_reset ! n = after clk_div rxs (Suc n)"
  by (simp add: nth_trace after_def)

subsection \<open>The line levels of a frame\<close>

lemma length_blocks:
  "length (concat (map (\<lambda>i. replicate d (f i)) [0..<m])) = m * d"
  by (induction m) simp_all

lemma nth_blocks:
  "n < m * d \<Longrightarrow> concat (map (\<lambda>i. replicate d (f i)) [0..<m]) ! n = f (n div d)"
proof (induction m)
  case 0
  then show ?case by simp
next
  case (Suc m)
  show ?case
  proof (cases "n < m * d")
    case True
    with Suc.IH show ?thesis by (simp add: nth_append length_blocks)
  next
    case False
    with Suc.prems have b: "m * d \<le> n" "n < m * d + d" by simp_all
    then have "0 < d" by simp
    have "n div d = m"
    proof -
      have "n = m * d + (n - m * d)" using b by simp
      then have "n div d = (m * d + (n - m * d)) div d" by simp
      also have "\<dots> = m + (n - m * d) div d" using \<open>0 < d\<close> by simp
      also have "(n - m * d) div d = 0" using b by simp
      finally show ?thesis by simp
    qed
    moreover have "n - m * d < d" using b by simp
    ultimately show ?thesis using False by (simp add: nth_append length_blocks)
  qed
qed

lemma length_uart_rx_byte: "length (uart_rx_byte d B) = 10 * d"
  by (simp add: uart_rx_byte_def length_blocks)

lemma nth_uart_rx_byte:
  assumes "n < 10 * d"
  shows "uart_rx_byte d B ! n =
     (if n < d then False else if n < 9 * d then bit B (n div d - 1) else True)"
proof -
  consider "n < d" | "d \<le> n" "n < 9 * d" | "9 * d \<le> n" by linarith
  then show ?thesis
  proof cases
    case 1
    then show ?thesis by (simp add: uart_rx_byte_def nth_append)
  next
    case 2
    then have "0 < d" by simp
    from 2 have lt: "n - d < 8 * d" by simp
    have "(n - d) div d = n div d - 1"
      using 2 \<open>0 < d\<close> by (simp add: le_div_geq)
    with 2 lt show ?thesis
      by (simp add: uart_rx_byte_def nth_append length_blocks nth_blocks)
  next
    case 3
    with assms have a: "\<not> n < d" "\<not> n - d < 8 * d" "n - d - 8 * d < d" by simp_all
    then show ?thesis using 3
      by (simp add: uart_rx_byte_def nth_append length_blocks)
  qed
qed

subsection \<open>Waiting for the strobe\<close>

lemma after_add:
  "after d rxs (n + k) = run d (take k (drop n rxs)) (after d rxs n)"
  by (simp add: after_def take_add run_append)

lemma run_wait:
  "fsm s \<in> {RX_START, RX_DATA, RX_STOP} \<Longrightarrow> 0 < rx_count s \<Longrightarrow> rx_count s < d \<Longrightarrow>
   rx_count s + length xs \<le> d \<Longrightarrow>
   run d xs s = s\<lparr>rx_count := (rx_count s + length xs) mod d\<rparr>"
proof (induction xs arbitrary: s)
  case Nil
  then show ?case by simp
next
  case (Cons x xs)
  let ?c = "rx_count s"
  from Cons.prems have c: "?c < d" by simp
  have nostrobe: "\<not> rx_strobe s" using Cons.prems by (simp add: rx_strobe_def)
  have step: "rx_step d x s = s\<lparr>rx_count := Suc ?c mod d\<rparr>"
    using Cons.prems(1) nostrobe count_next_mod[OF c]
    by (auto simp: rx_step_def Let_def)
  show ?case
  proof (cases "xs = []")
    case True
    with step show ?thesis by simp
  next
    case False
    then have pos: "0 < length xs" by simp
    have len: "length (x # xs) = Suc (length xs)" by simp
    from Cons.prems(4) pos have lt: "Suc ?c < d" unfolding len by linarith
    then have cnt: "Suc ?c mod d = Suc ?c" by simp
    let ?s' = "s\<lparr>rx_count := Suc ?c\<rparr>"
    have "run d xs ?s' = ?s'\<lparr>rx_count := (rx_count ?s' + length xs) mod d\<rparr>"
      using Cons.prems lt by (intro Cons.IH) simp_all
    with step cnt show ?thesis by simp
  qed
qed

lemma after_wait:
  assumes "n + k \<le> length rxs"
    and "fsm (after d rxs n) \<in> {RX_START, RX_DATA, RX_STOP}"
    and "0 < rx_count (after d rxs n)"
    and "rx_count (after d rxs n) < d"
    and "rx_count (after d rxs n) + k \<le> d"
  shows "after d rxs (n + k) =
     (after d rxs n)\<lparr>rx_count := (rx_count (after d rxs n) + k) mod d\<rparr>"
proof -
  have "length (take k (drop n rxs)) = k" using assms(1) by simp
  with run_wait[where s = "after d rxs n" and xs = "take k (drop n rxs)" and d = d] assms
  show ?thesis by (simp add: after_add)
qed

subsection \<open>The shift register\<close>

lemma bit_cat_rx:
  "bit (cat_rx buf rx) n = (if n = 7 then rx else n < 7 \<and> bit buf (Suc n))"
  by (auto simp: cat_rx_def bit_simps dest: bit_imp_le_length)

lemma cat_rx_shift:
  assumes "j < 8"
  shows "cat_rx (push_bit (8 - j) (take_bit j B)) (bit B j)
     = push_bit (7 - j) (take_bit (Suc j) B)"
proof (rule bit_word_eqI)
  fix n assume n: "n < LENGTH(8)"
  show "bit (cat_rx (push_bit (8 - j) (take_bit j B)) (bit B j)) n
     = bit (push_bit (7 - j) (take_bit (Suc j) B)) n"
  proof (cases "n = 7")
    case True
    with assms show ?thesis by (simp add: bit_cat_rx bit_simps)
  next
    case False
    with n have lt: "n < 7" by simp
    have e: "Suc n - (8 - j) = n - (7 - j)" using assms by simp
    have f: "8 - j \<le> Suc n \<longleftrightarrow> 7 - j \<le> n" using assms by auto
    have g: "7 - j \<le> n \<Longrightarrow> n - (7 - j) < j" using assms lt by simp
    show ?thesis using lt False
      by (auto simp: bit_cat_rx bit_simps e f g)
  qed
qed

subsection \<open>The phases of a frame\<close>

lemma start_entry:
  assumes "4 \<le> d"
  shows "after d (uart_rx_byte d B) (Suc 0) =
     \<lparr>fsm = RX_START, rx_count = d div 2, rx_buf = 0, rx_bit = 0,
      rx_ack = False, rx_fix = False\<rparr>"
proof -
  from assms have h: "d div 2 < d" "0 < 10 * d" "0 < d" by auto
  have "uart_rx_byte d B ! 0 = False" using h by (simp add: nth_uart_rx_byte)
  then show ?thesis
    using h count_fits[OF h(1)]
    by (simp add: after_Suc length_uart_rx_byte after_0 rx_step_def rx_reset_def)
qed

lemma start_phase:
  assumes "4 \<le> d" "k \<le> d - d div 2"
  shows "after d (uart_rx_byte d B) (Suc k) =
     \<lparr>fsm = RX_START, rx_count = (d div 2 + k) mod d, rx_buf = 0, rx_bit = 0,
      rx_ack = False, rx_fix = False\<rparr>"
proof -
  let ?F = "uart_rx_byte d B"
  from assms have h: "2 \<le> d div 2" "d div 2 < d" by auto
  have len: "Suc 0 + k \<le> length ?F" using assms by (simp add: length_uart_rx_byte)
  have "after d ?F (Suc 0 + k) =
      (after d ?F (Suc 0))\<lparr>rx_count := (rx_count (after d ?F (Suc 0)) + k) mod d\<rparr>"
    using len assms h by (intro after_wait) (simp_all add: start_entry)
  then show ?thesis using assms by (simp add: start_entry)
qed

lemma data_entry:
  assumes "4 \<le> d"
  shows "after d (uart_rx_byte d B) (Suc (Suc (d - d div 2))) =
     \<lparr>fsm = RX_DATA, rx_count = 1, rx_buf = 0, rx_bit = 0,
      rx_ack = False, rx_fix = False\<rparr>"
proof -
  let ?F = "uart_rx_byte d B"
  let ?n = "Suc (d - d div 2)"
  from assms have h: "2 \<le> d div 2" "d div 2 < d" by auto
  have s: "after d ?F ?n =
     \<lparr>fsm = RX_START, rx_count = 0, rx_buf = 0, rx_bit = 0,
      rx_ack = False, rx_fix = False\<rparr>"
    using start_phase[OF assms, of "d - d div 2" B] h by simp
  have "?n < length ?F" using assms by (simp add: length_uart_rx_byte)
  then have "after d ?F (Suc ?n) = rx_step d (?F ! ?n) (after d ?F ?n)"
    by (rule after_Suc)
  moreover have "count_next d 0 = 1" using assms by (simp add: count_next_mod)
  ultimately show ?thesis
    by (simp add: s rx_step_def rx_strobe_def)
qed


lemma div_block: "r < d \<Longrightarrow> (r + m * d) div d = m" for d :: nat
  by simp

lemma of_nat_7_word3: "j < 8 \<Longrightarrow> (of_nat j = (7 :: 3 word)) = (j = 7)"
proof
  assume j: "j < 8" and e: "of_nat j = (7 :: 3 word)"
  from j have "unat (of_nat j :: 3 word) = j" by (simp add: unat_of_nat)
  moreover from e have "unat (of_nat j :: 3 word) = unat (7 :: 3 word)" by simp
  ultimately show "j = 7" by simp
next
  assume "j = 7"
  then show "of_nat j = (7 :: 3 word)" by simp
qed

lemma data_phase:
  assumes "4 \<le> d"
  shows "j \<le> 8 \<Longrightarrow>
     after d (uart_rx_byte d B) (Suc (Suc (d - d div 2)) + j * d) =
       \<lparr>fsm = (if j = 8 then RX_STOP else RX_DATA), rx_count = 1,
        rx_buf = push_bit (8 - j) (take_bit j B), rx_bit = of_nat j,
        rx_ack = False, rx_fix = False\<rparr>"
proof (induction j)
  case 0
  then show ?case using data_entry[OF assms, of B] by simp
next
  case (Suc j)
  let ?F = "uart_rx_byte d B"
  define n where "n = Suc (Suc (d - d div 2)) + j * d"
  let ?s = "\<lparr>fsm = RX_DATA, rx_count = 1, rx_buf = push_bit (8 - j) (take_bit j B),
             rx_bit = of_nat j, rx_ack = False, rx_fix = False\<rparr>"
  from assms have h: "2 \<le> d div 2" "d div 2 < d" by auto
  from Suc.prems have j: "j < 8" by simp
  with Suc.IH have s: "after d ?F n = ?s" by (simp add: n_def)
  have jd: "j * d \<le> 7 * d" using j by simp
  have len: "n + (d - 1) < length ?F"
    unfolding length_uart_rx_byte n_def using h jd by linarith
  have w: "after d ?F (n + (d - 1)) = ?s\<lparr>rx_count := 0\<rparr>"
  proof -
    have "after d ?F (n + (d - 1)) =
        (after d ?F n)\<lparr>rx_count := (rx_count (after d ?F n) + (d - 1)) mod d\<rparr>"
      using len assms by (intro after_wait) (simp_all add: s)
    then show ?thesis using assms by (simp add: s)
  qed
  have split: "n + (d - 1) = Suc (d - d div 2) + Suc j * d"
    unfolding n_def using assms by simp
  have idx: "(n + (d - 1)) div d = Suc j"
  proof -
    have "Suc (d - d div 2) < d" using h by simp
    then show ?thesis unfolding split by (rule div_block)
  qed
  have lo: "\<not> n + (d - 1) < d" unfolding n_def using assms by simp
  have hi: "n + (d - 1) < 9 * d" unfolding n_def using h jd by linarith
  have rx: "?F ! (n + (d - 1)) = bit B j"
    using len lo hi idx by (simp add: nth_uart_rx_byte length_uart_rx_byte)
  have cn: "count_next d 0 = 1" using assms by (simp add: count_next_mod)
  have "after d ?F (Suc (n + (d - 1))) = rx_step d (?F ! (n + (d - 1))) (?s\<lparr>rx_count := 0\<rparr>)"
    using len w by (simp only: after_Suc)
  also have "\<dots> = rx_step d (bit B j) (?s\<lparr>rx_count := 0\<rparr>)"
    by (simp only: rx)
  also have "\<dots> = \<lparr>fsm = (if Suc j = 8 then RX_STOP else RX_DATA), rx_count = 1,
        rx_buf = push_bit (8 - Suc j) (take_bit (Suc j) B), rx_bit = of_nat (Suc j),
        rx_ack = False, rx_fix = False\<rparr>"
    using j cat_rx_shift[OF j, of B] of_nat_7_word3[OF j]
    by (simp add: rx_step_def rx_strobe_def cn)
  finally have "after d ?F (Suc (n + (d - 1))) = \<lparr>fsm = (if Suc j = 8 then RX_STOP else RX_DATA), rx_count = 1,
        rx_buf = push_bit (8 - Suc j) (take_bit (Suc j) B), rx_bit = of_nat (Suc j),
        rx_ack = False, rx_fix = False\<rparr>" .
  moreover have "Suc (n + (d - 1)) = Suc (Suc (d - d div 2)) + Suc j * d"
    unfolding n_def using assms by simp
  ultimately show ?case by (simp only:)
qed

lemma bit_phase:
  assumes "4 \<le> d" "j \<le> 8" "k < d"
  shows "after d (uart_rx_byte d B) (Suc (Suc (d - d div 2)) + j * d + k) =
       \<lparr>fsm = (if j = 8 then RX_STOP else RX_DATA), rx_count = Suc k mod d,
        rx_buf = push_bit (8 - j) (take_bit j B), rx_bit = of_nat j,
        rx_ack = False, rx_fix = False\<rparr>"
proof -
  let ?F = "uart_rx_byte d B"
  define n where "n = Suc (Suc (d - d div 2)) + j * d"
  from assms have h: "2 \<le> d div 2" "d div 2 < d" by auto
  have s: "after d ?F n =
       \<lparr>fsm = (if j = 8 then RX_STOP else RX_DATA), rx_count = 1,
        rx_buf = push_bit (8 - j) (take_bit j B), rx_bit = of_nat j,
        rx_ack = False, rx_fix = False\<rparr>"
    unfolding n_def using assms(1,2) by (rule data_phase)
  have jd: "j * d \<le> 8 * d" using assms(2) by simp
  have len: "n + k \<le> length ?F"
    unfolding length_uart_rx_byte n_def using h jd assms(3) by linarith
  have "after d ?F (n + k) =
        (after d ?F n)\<lparr>rx_count := (rx_count (after d ?F n) + k) mod d\<rparr>"
    using len assms by (intro after_wait) (simp_all add: s)
  then show ?thesis unfolding n_def[symmetric] by (simp add: s)
qed

lemma full_entry:
  assumes "4 \<le> d"
  shows "after d (uart_rx_byte d B) (Suc (Suc (d - d div 2)) + 9 * d) =
       \<lparr>fsm = RX_FULL, rx_count = 1, rx_buf = B, rx_bit = 0,
        rx_ack = False, rx_fix = False\<rparr>"
proof -
  let ?F = "uart_rx_byte d B"
  define n where "n = Suc (Suc (d - d div 2)) + 8 * d + (d - 1)"
  from assms have h: "2 \<le> d div 2" "d div 2 < d" by auto
  have s: "after d ?F n =
       \<lparr>fsm = RX_STOP, rx_count = 0, rx_buf = B, rx_bit = 0,
        rx_ack = False, rx_fix = False\<rparr>"
  proof -
    have "after d ?F n =
       \<lparr>fsm = (if (8::nat) = 8 then RX_STOP else RX_DATA), rx_count = Suc (d - 1) mod d,
        rx_buf = push_bit (8 - 8) (take_bit 8 B), rx_bit = of_nat 8,
        rx_ack = False, rx_fix = False\<rparr>"
      unfolding n_def using assms by (intro bit_phase) simp_all
    moreover have "Suc (d - 1) mod d = 0" using assms by simp
    moreover have "take_bit 8 B = B" using take_bit_length_eq[of B] by simp
    moreover have "(of_nat 8 :: 3 word) = 0" by simp
    ultimately show ?thesis by simp
  qed
  have len: "n < length ?F" "n < 10 * d" "\<not> n < d" "\<not> n < 9 * d"
    unfolding length_uart_rx_byte n_def using h by linarith+
  then have rx: "?F ! n = True" by (simp add: nth_uart_rx_byte)
  have cn: "count_next d 0 = 1" using assms by (simp add: count_next_mod)
  have "after d ?F (Suc n) = rx_step d (?F ! n) (after d ?F n)"
    using len(1) by (rule after_Suc)
  also have "\<dots> = \<lparr>fsm = RX_FULL, rx_count = 1, rx_buf = B, rx_bit = 0,
        rx_ack = False, rx_fix = False\<rparr>"
    unfolding rx s by (simp add: rx_step_def rx_strobe_def cn)
  finally have "after d ?F (Suc n) = \<lparr>fsm = RX_FULL, rx_count = 1, rx_buf = B, rx_bit = 0,
        rx_ack = False, rx_fix = False\<rparr>" .
  moreover have "Suc n = Suc (Suc (d - d div 2)) + 9 * d"
    unfolding n_def using assms by simp
  ultimately show ?thesis by (simp only:)
qed

lemma run_full_hold:
  "fsm s = RX_FULL \<Longrightarrow> \<not> rx_ack s \<Longrightarrow> \<forall>x\<in>set xs. x \<Longrightarrow>
   fsm (run d xs s) = RX_FULL \<and> rx_buf (run d xs s) = rx_buf s"
proof (induction xs arbitrary: s)
  case Nil
  then show ?case by simp
next
  case (Cons x xs)
  from Cons.prems(3) have x: "x" "\<forall>y\<in>set xs. y" by auto
  let ?s' = "rx_step d x s"
  have "fsm ?s' = RX_FULL" "\<not> rx_ack ?s'" "rx_buf ?s' = rx_buf s"
    using Cons.prems(1,2) x(1) by (simp_all add: rx_step_def Let_def)
  with Cons.IH[of ?s'] x(2) show ?case by simp
qed

lemma stop_bits_high:
  assumes "9 * d \<le> n" "x \<in> set (take k (drop n (uart_rx_byte d B)))"
  shows "x"
proof -
  from assms(2) have "x \<in> set (drop n (uart_rx_byte d B))" by (rule in_set_takeD)
  then obtain i where i: "i < length (drop n (uart_rx_byte d B))"
    "x = drop n (uart_rx_byte d B) ! i"
    by (auto simp: in_set_conv_nth)
  then have lt: "n + i < 10 * d" by (simp add: length_uart_rx_byte)
  with assms(1) have "\<not> n + i < d" "\<not> n + i < 9 * d" by simp_all
  with lt have "uart_rx_byte d B ! (n + i) = True" by (simp add: nth_uart_rx_byte)
  with i lt show ?thesis by (simp add: length_uart_rx_byte)
qed

lemma full_phase:
  assumes "4 \<le> d"
  shows "fsm (after d (uart_rx_byte d B) (Suc (Suc (d - d div 2)) + 9 * d + k)) = RX_FULL
     \<and> rx_buf (after d (uart_rx_byte d B) (Suc (Suc (d - d div 2)) + 9 * d + k)) = B"
proof -
  let ?F = "uart_rx_byte d B"
  define n where "n = Suc (Suc (d - d div 2)) + 9 * d"
  have s: "after d ?F n = \<lparr>fsm = RX_FULL, rx_count = 1, rx_buf = B, rx_bit = 0,
        rx_ack = False, rx_fix = False\<rparr>"
    unfolding n_def using assms by (rule full_entry)
  have "9 * d \<le> n" by (simp add: n_def)
  then have "\<forall>x\<in>set (take k (drop n ?F)). x" using stop_bits_high by blast
  with run_full_hold[of "after d ?F n" "take k (drop n ?F)" d]
  have "fsm (after d ?F (n + k)) = RX_FULL \<and> rx_buf (after d ?F (n + k)) = B"
    by (simp add: after_add s)
  then show ?thesis unfolding n_def .
qed

subsection \<open>The error state under the test bench\<close>

lemma exec_error_inv:
  "fsm (snd c) = RX_ERROR \<Longrightarrow> \<not> rx_fix (snd c) \<Longrightarrow> x \<noteq> Set_fix True \<Longrightarrow>
   fsm (snd (exec clk_div x c)) = RX_ERROR \<and> \<not> rx_fix (snd (exec clk_div x c))"
  by (cases c; cases x) (auto simp: rx_step_def Let_def)

lemma exec_all_error_inv:
  "fsm (snd c) = RX_ERROR \<Longrightarrow> \<not> rx_fix (snd c) \<Longrightarrow> Set_fix True \<notin> set xs \<Longrightarrow>
   fsm (snd (exec_all clk_div xs c)) = RX_ERROR \<and> \<not> rx_fix (snd (exec_all clk_div xs c))"
proof (induction xs arbitrary: c)
  case Nil
  then show ?case by simp
next
  case (Cons x xs)
  from Cons.prems have "x \<noteq> Set_fix True" "Set_fix True \<notin> set xs" by auto
  with Cons.prems exec_error_inv[of c x clk_div]
  have "fsm (snd (exec clk_div x c)) = RX_ERROR" "\<not> rx_fix (snd (exec clk_div x c))" by auto
  with Cons.IH[of "exec clk_div x c"] \<open>Set_fix True \<notin> set xs\<close> show ?case by simp
qed

subsection \<open>The range of a double\<close>

lemma overflows_mono: "\<bar>x\<bar> \<le> \<bar>y\<bar> \<Longrightarrow> overflows x \<Longrightarrow> overflows y"
  unfolding overflows_def by (rule order_trans[rotated])

subsection \<open>Floor division\<close>

lemma div_ge_1: "0 < outfreq \<Longrightarrow> outfreq \<le> infreq \<Longrightarrow> 1 \<le> infreq div (outfreq::int)"
proof -
  assume a: "0 < outfreq" "outfreq \<le> infreq"
  then have "outfreq div outfreq \<le> infreq div outfreq" by (rule zdiv_mono1[rotated])
  with a show ?thesis by simp
qed

lemma rate_ge:
  assumes "0 < outfreq" "1 \<le> infreq div outfreq"
  shows "(of_int outfreq :: rat) \<le> of_int infreq / of_int (infreq div outfreq)"
proof -
  let ?d = "infreq div outfreq"
  have "infreq = outfreq * ?d + infreq mod outfreq" by simp
  moreover have "0 \<le> infreq mod outfreq" using assms(1) by simp
  ultimately have "outfreq * ?d \<le> infreq" by linarith
  then have "(of_int (outfreq * ?d) :: rat) \<le> of_int infreq" by (simp only: of_int_le_iff)
  then have "(of_int outfreq :: rat) * of_int ?d \<le> of_int infreq" by simp
  moreover have "(0::rat) < of_int ?d" using assms(2) by simp
  ultimately show ?thesis by (simp add: pos_le_divide_eq)
qed

section \<open>The clock divider\<close>

text \<open>
  C2, as stated: for positive frequencies with \<open>outfreq \<le> infreq\<close> and a relative error
  of the achieved rate within \<open>max_err\<close>, \<open>clock_divider\<close> returns the divisor. With the
  frequencies 21 and 4 the divisor is 5 and the relative error of the rate \<open>21 / 5\<close> is
  \<open>1 / 20\<close>, within the double nearest 0.05; the error rate computed in double precision
  is above that double, and the function raises. With both frequencies \<open>2 ^ 1024\<close> the
  relative error is 0, and the division \<^verbatim>\<open>inf / div\<close> raises \<^verbatim>\<open>OverflowError\<close>.
\<close>

theorem clock_divider_valid_counterexample:
  "\<bar>of_int 21 / of_int (21 div 4) - of_int 4\<bar> / of_int 4 \<le> round_double (1 / 20)
   \<and> clock_divider round_double 21 4 (round_double (1 / 20))
       = ([Error_rate_too_high (rel_err round_double 21 5 4) (round_double (1 / 20))],
          Inl ValueError)
   \<and> \<bar>of_int (2 ^ 1024) / of_int (2 ^ 1024 div 2 ^ 1024) - of_int (2 ^ 1024)\<bar>
         / of_int (2 ^ 1024) \<le> round_double (1 / 20)
   \<and> clock_divider round_double (2 ^ 1024) (2 ^ 1024) (round_double (1 / 20))
       = ([], Inl OverflowError)"
proof -
  have tol: "round_double (1 / 20) = 3602879701896397 / 2 ^ 56"
    by code_simp
  have "\<bar>of_int 21 / of_int (21 div 4) - of_int 4\<bar> / of_int 4 \<le> round_double (1 / 20)"
    unfolding tol by simp
  moreover have "clock_divider round_double 21 4 (round_double (1 / 20))
       = ([Error_rate_too_high (rel_err round_double 21 5 4) (round_double (1 / 20))],
          Inl ValueError)"
  proof -
    have "round_double (1 / 20) < rel_err round_double 21 5 4"
      by code_simp
    then show ?thesis by (simp add: clock_divider_def overflows_def)
  qed
  moreover have "\<bar>of_int (2 ^ 1024) / of_int (2 ^ 1024 div 2 ^ 1024) - of_int (2 ^ 1024)\<bar>
         / of_int (2 ^ 1024) \<le> round_double (1 / 20)"
    unfolding tol by simp
  moreover have "clock_divider round_double (2 ^ 1024) (2 ^ 1024) (round_double (1 / 20))
       = ([], Inl OverflowError)"
    by (simp add: clock_divider_def overflows_def)
  ultimately show ?thesis by blast
qed

text \<open>
  C2, amended. For positive frequencies with \<open>outfreq \<le> infreq\<close>, an achieved rate
  \<open>infreq / dv\<close> in the range of a double, and an error rate that, as the function computes
  it in double precision, does not exceed \<open>max_err\<close>, \<open>clock_divider\<close> returns the floor of
  \<open>infreq / outfreq\<close>, which is at least 1, and prints nothing; for positive frequencies
  with \<open>outfreq > infreq\<close> it raises after the line about invalid frequencies.
\<close>

theorem clock_divider_valid:
  "(0 < outfreq \<and> outfreq \<le> infreq
      \<and> \<not> overflows (of_int infreq / of_int (infreq div outfreq))
      \<and> rel_err rd infreq (infreq div outfreq) outfreq \<le> max_err
    \<longrightarrow> clock_divider rd infreq outfreq max_err = ([], Inr (infreq div outfreq))
        \<and> 1 \<le> infreq div outfreq)
   \<and> (0 < infreq \<and> infreq < outfreq
    \<longrightarrow> clock_divider rd infreq outfreq max_err
          = ([Invalid_frequencies infreq outfreq], Inl ValueError))"
proof (intro conjI impI)
  assume a: "0 < outfreq \<and> outfreq \<le> infreq
      \<and> \<not> overflows (of_int infreq / of_int (infreq div outfreq))
      \<and> rel_err rd infreq (infreq div outfreq) outfreq \<le> max_err"
  then have d: "1 \<le> infreq div outfreq" by (simp add: div_ge_1)
  then show "1 \<le> infreq div outfreq" .
  from a d have "(of_int outfreq :: rat) \<le> of_int infreq / of_int (infreq div outfreq)"
    by (simp add: rate_ge)
  moreover have "(0::rat) < of_int outfreq" using a by simp
  ultimately have "\<bar>of_int outfreq :: rat\<bar>
      \<le> \<bar>of_int infreq / of_int (infreq div outfreq)\<bar>"
    by linarith
  with a have "\<not> overflows (of_int outfreq)"
    using overflows_mono by blast
  with a d show "clock_divider rd infreq outfreq max_err = ([], Inr (infreq div outfreq))"
    by (simp add: clock_divider_def Let_def)
next
  assume a: "0 < infreq \<and> infreq < outfreq"
  then have "infreq div outfreq = 0" by (simp add: div_pos_pos_trivial)
  with a show "clock_divider rd infreq outfreq max_err
          = ([Invalid_frequencies infreq outfreq], Inl ValueError)"
    by (simp add: clock_divider_def Let_def)
qed

theorem clock_divider_valid_witness:
  "clock_divider round_double 24000000 1000000 (round_double (1 / 20)) = ([], Inr 24)
   \<and> clock_divider round_double 1000000 24000000 (round_double (1 / 20))
       = ([Invalid_frequencies 1000000 24000000], Inl ValueError)"
proof -
  have "rel_err round_double 24000000 (24000000 div 1000000) 1000000
      \<le> round_double (1 / 20)"
    by code_simp
  moreover have "\<not> overflows (of_int 24000000 / of_int (24000000 div 1000000))"
    by (simp add: overflows_def)
  ultimately show ?thesis
    using clock_divider_valid[of 1000000 24000000 round_double "round_double (1 / 20)"]
      clock_divider_valid[of 24000000 1000000 round_double "round_double (1 / 20)"]
    by simp
qed

text \<open>
  C6, as stated: \<open>clock_divider\<close> fails whenever \<open>outfreq\<close> exceeds or equals \<open>infreq\<close>.
  With both frequencies 5 the divisor is 1, the error rate is 0, and 1 is returned.
\<close>

theorem clock_divider_equal_counterexample:
  "clock_divider round_double 5 5 (round_double (1 / 20)) = ([], Inr 1)"
proof -
  have "\<not> round_double (1 / 20) < rel_err round_double 5 1 5"
    by code_simp
  then show ?thesis by (simp add: clock_divider_def overflows_def)
qed

text \<open>
  C6, amended. For positive frequencies, \<open>clock_divider\<close> raises after the line about
  invalid frequencies when \<open>outfreq\<close> exceeds \<open>infreq\<close>. When the two are equal the divisor
  is 1 and passes that check: the function raises \<^verbatim>\<open>OverflowError\<close> when the frequency is
  beyond the range of a double, and otherwise returns 1 unless the error rate computed for
  it exceeds \<open>max_err\<close>.
\<close>

theorem clock_divider_invalid:
  "0 < infreq \<Longrightarrow> infreq \<le> outfreq \<Longrightarrow>
   clock_divider rd infreq outfreq max_err =
    (if infreq < outfreq then ([Invalid_frequencies infreq outfreq], Inl ValueError)
     else if overflows (of_int infreq) then ([], Inl OverflowError)
     else if rel_err rd infreq 1 outfreq > max_err
       then ([Error_rate_too_high (rel_err rd infreq 1 outfreq) max_err], Inl ValueError)
     else ([], Inr 1))"
  by (auto simp: clock_divider_def Let_def div_pos_pos_trivial)

theorem clock_divider_invalid_witness:
  "clock_divider round_double 5 7 (round_double (1 / 20))
     = ([Invalid_frequencies 5 7], Inl ValueError)
   \<and> clock_divider round_double 7 7 (round_double (1 / 20)) = ([], Inr 1)
   \<and> clock_divider round_double (2 ^ 1024) (2 ^ 1024) (round_double (1 / 20))
     = ([], Inl OverflowError)"
proof -
  have "\<not> rel_err round_double 7 1 7 > round_double (1 / 20)"
    by code_simp
  moreover have "\<not> overflows (of_int 7)" "overflows (of_int (2 ^ 1024))"
    by (simp_all add: overflows_def)
  ultimately show ?thesis
    using clock_divider_invalid[of 5 7 round_double "round_double (1 / 20)"]
      clock_divider_invalid[of 7 7 round_double "round_double (1 / 20)"]
      clock_divider_invalid[of "2 ^ 1024" "2 ^ 1024" round_double "round_double (1 / 20)"]
    by simp
qed

text \<open>
  C10. When the check \<open>1 \<le> dv\<close> has passed for a positive \<open>outfreq\<close>, the rate
  \<open>infreq / dv\<close> is at least \<open>outfreq\<close>. For a rounding that is monotone and leaves 0 and 1
  unchanged, as rounding to the nearest double is, the rounded rate is at least the rounded
  \<open>outfreq\<close>, the divisor of the last division is positive, the computed error rate is not
  negative, and comparing it with \<open>max_err\<close> is the same as comparing its absolute value.
\<close>

theorem deviation_nonnegative:
  assumes "mono rd" "rd 0 = 0" "rd 1 = 1" "0 < outfreq" "1 \<le> infreq div outfreq"
  shows "(of_int outfreq :: rat) \<le> of_int infreq / of_int (infreq div outfreq)
     \<and> rd (of_int outfreq) \<le> rd (of_int infreq / of_int (infreq div outfreq))
     \<and> 0 < rd (of_int outfreq)
     \<and> 0 \<le> rel_err rd infreq (infreq div outfreq) outfreq
     \<and> ((rel_err rd infreq (infreq div outfreq) outfreq > max_err)
          = (\<bar>rel_err rd infreq (infreq div outfreq) outfreq\<bar> > max_err))"
proof -
  let ?a = "rd (of_int infreq / of_int (infreq div outfreq))"
  let ?b = "rd (of_int outfreq)"
  have 1: "(of_int outfreq :: rat) \<le> of_int infreq / of_int (infreq div outfreq)"
    using assms(4,5) by (rule rate_ge)
  then have 2: "?b \<le> ?a" using assms(1) by (simp add: monoD)
  have "(1::rat) \<le> of_int outfreq" using assms(4) by simp
  then have "rd 1 \<le> ?b" using assms(1) by (rule monoD[rotated])
  then have 3: "0 < ?b" using assms(3) by simp
  have "rd 0 \<le> rd (?a - ?b)" using assms(1) 2 by (simp add: monoD)
  then have c: "0 \<le> rd (?a - ?b)" using assms(2) by simp
  then have "0 \<le> rd (?a - ?b) / ?b" using 3 by simp
  then have "rd 0 \<le> rd (rd (?a - ?b) / ?b)" using assms(1) by (rule monoD[rotated])
  then have 4: "0 \<le> rel_err rd infreq (infreq div outfreq) outfreq"
    using assms(2) by (simp add: rel_err_def)
  from 1 2 3 4 show ?thesis by simp
qed

theorem deviation_nonnegative_witness:
  "(1000000::rat) \<le> 25000000 / 25 \<and> 0 \<le> rel_err exact 25999999 25 1000000"
proof -
  have "mono exact" by (simp add: mono_def exact_def)
  moreover have "exact 0 = 0" "exact 1 = 1" by (simp_all add: exact_def)
  ultimately show ?thesis
    using deviation_nonnegative[of exact 1000000 25999999 "1 / 20"]
      deviation_nonnegative[of exact 1000000 25000000 "1 / 20"] by simp
qed

section \<open>The bit-timing counter\<close>

text \<open>
  C3. With \<open>clk_div\<close> at least 1 and the counter starting at 0, the strobe of the free-running
  counter is asserted after \<open>n\<close> clock edges exactly when \<open>n\<close> is a multiple of \<open>clk_div\<close>,
  so every window of \<open>clk_div\<close> consecutive cycles holds exactly one cycle with the strobe.
  The transmitter's counter always runs free. The receiver's counter runs free as long as
  the state machine does not leave the idle state, the one place where it assigns the
  counter.
\<close>

theorem strobe_periodicity:
  assumes "0 < clk_div"
  shows "(tx_strobe ((tx_step clk_div ^^ n) tx_reset) \<longleftrightarrow> n mod clk_div = 0)
     \<and> (\<exists>!t. n \<le> t \<and> t < n + clk_div \<and> tx_strobe ((tx_step clk_div ^^ t) tx_reset))
     \<and> (n \<le> length rxs
          \<and> (\<forall>k<n. \<not> (fsm (after clk_div rxs k) = RX_IDLE \<and> \<not> rxs ! k))
        \<longrightarrow> (rx_strobe (after clk_div rxs n) \<longleftrightarrow> n mod clk_div = 0))"
proof (intro conjI impI)
  show "tx_strobe ((tx_step clk_div ^^ n) tx_reset) \<longleftrightarrow> n mod clk_div = 0"
    using assms by (simp add: tx_strobe_def tx_count_iter)
  have "\<exists>!t. n \<le> t \<and> t < n + clk_div \<and> t mod clk_div = 0"
    using assms by (rule window_unique)
  then show "\<exists>!t. n \<le> t \<and> t < n + clk_div \<and> tx_strobe ((tx_step clk_div ^^ t) tx_reset)"
    using assms by (simp add: tx_strobe_def tx_count_iter)
next
  assume "n \<le> length rxs
          \<and> (\<forall>k<n. \<not> (fsm (after clk_div rxs k) = RX_IDLE \<and> \<not> rxs ! k))"
  then show "rx_strobe (after clk_div rxs n) \<longleftrightarrow> n mod clk_div = 0"
    using rx_count_after[OF assms, of n rxs] by (simp add: rx_strobe_def)
qed

theorem strobe_periodicity_witness:
  "tx_strobe ((tx_step 2 ^^ 4) tx_reset) \<and> \<not> tx_strobe ((tx_step 2 ^^ 3) tx_reset)
   \<and> rx_strobe (after 2 [True, True] 2)"
proof -
  have a1: "after 2 [True, True] 0 = rx_reset" by (simp add: after_0)
  have cn: "count_next 2 0 = 1"
    by (simp add: count_next_mod)
  have a2: "after 2 [True, True] (Suc 0) = rx_reset\<lparr>rx_count := 1\<rparr>"
    by (simp add: after_def rx_step_def rx_reset_def cn)
  have h: "\<forall>k<2. \<not> (fsm (after 2 [True, True] k) = RX_IDLE \<and> \<not> [True, True] ! k)"
    using a1 a2 by (auto dest!: less_two_cases)
  show ?thesis
    using strobe_periodicity[of 2 4 "[]"] strobe_periodicity[of 2 3 "[]"]
      strobe_periodicity[of 2 2 "[True, True]"] h
    by simp
qed

section \<open>The receiver's state machine\<close>

text \<open>
  C1, as stated: from reset, a frame of one start bit, the 8 bits of \<open>B\<close> and one stop
  bit, each held for \<open>clk_div\<close> clock edges, leads through the start, data and stop states
  into the full state with \<open>B\<close> in the buffer. With \<open>clk_div\<close> 3 and the byte 0xAF the
  receiver is still in the stop state at the end of the frame and was never in the full
  state; it took its samples one bit late, so a further edge with the line high leaves
  0xD7 in the buffer.
\<close>

theorem round_trip_decode_counterexample:
  "map fsm (trace 3 (uart_rx_byte 3 0xAF) rx_reset)
     = replicate 3 RX_START @ replicate 24 RX_DATA @ replicate 3 RX_STOP
   \<and> run 3 (uart_rx_byte 3 0xAF @ [True]) rx_reset
     = \<lparr>fsm = RX_FULL, rx_count = 1, rx_buf = 0xD7, rx_bit = 0,
        rx_ack = False, rx_fix = False\<rparr>"
  by code_simp

text \<open>
  C1, amended. For \<open>clk_div\<close> at least 4 and every byte \<open>B\<close>, the frame has
  \<open>10 * clk_div\<close> clock edges and, from reset, the receiver is in the start state after
  edges 1 to \<open>clk_div - clk_div div 2 + 1\<close>, in the data state for the next \<open>8 * clk_div\<close>
  edges, in the stop state for the next \<open>clk_div\<close> edges, and in the full state with \<open>B\<close>
  in the buffer from then to the end of the frame.
\<close>

theorem round_trip_decode:
  assumes "4 \<le> clk_div"
  shows "length (uart_rx_byte clk_div B) = 10 * clk_div
     \<and> after clk_div (uart_rx_byte clk_div B) 0 = rx_reset
     \<and> (\<forall>n. 1 \<le> n \<and> n + clk_div div 2 \<le> clk_div + 1
            \<longrightarrow> fsm (after clk_div (uart_rx_byte clk_div B) n) = RX_START)
     \<and> (\<forall>n. clk_div + 2 \<le> n + clk_div div 2 \<and> n + clk_div div 2 \<le> 9 * clk_div + 1
            \<longrightarrow> fsm (after clk_div (uart_rx_byte clk_div B) n) = RX_DATA)
     \<and> (\<forall>n. 9 * clk_div + 2 \<le> n + clk_div div 2 \<and> n + clk_div div 2 \<le> 10 * clk_div + 1
            \<longrightarrow> fsm (after clk_div (uart_rx_byte clk_div B) n) = RX_STOP)
     \<and> (\<forall>n. 10 * clk_div + 2 \<le> n + clk_div div 2 \<and> n \<le> 10 * clk_div
            \<longrightarrow> fsm (after clk_div (uart_rx_byte clk_div B) n) = RX_FULL
                \<and> rx_buf (after clk_div (uart_rx_byte clk_div B) n) = B)"
proof (intro conjI allI impI)
  let ?F = "uart_rx_byte clk_div B"
  let ?h = "clk_div div 2"
  let ?t = "Suc (Suc (clk_div - ?h))"
  from assms have h: "2 \<le> ?h" "?h < clk_div" by auto
  show "length ?F = 10 * clk_div" by (rule length_uart_rx_byte)
  show "after clk_div ?F 0 = rx_reset" by (rule after_0)
  {
    fix n assume a: "1 \<le> n \<and> n + ?h \<le> clk_div + 1"
    then obtain k where k: "n = Suc k" by (cases n) auto
    with a h have "k \<le> clk_div - ?h" by linarith
    from start_phase[OF assms this, of B] show "fsm (after clk_div ?F n) = RX_START"
      by (simp add: k)
  }
  {
    fix n assume a: "clk_div + 2 \<le> n + ?h \<and> n + ?h \<le> 9 * clk_div + 1"
    define m where "m = n - ?t"
    define j where "j = m div clk_div"
    define k where "k = m mod clk_div"
    from a h have n: "n = ?t + m" and m: "m < 8 * clk_div" unfolding m_def by linarith+
    from assms have k: "k < clk_div" by (simp add: k_def)
    from m have j: "j < 8" unfolding j_def using assms by (simp add: less_mult_imp_div_less)
    have "m = j * clk_div + k" by (simp add: j_def k_def)
    with n have n': "n = ?t + j * clk_div + k" by simp
    from j have "j \<le> 8" by simp
    from bit_phase[OF assms this k, of B] j show "fsm (after clk_div ?F n) = RX_DATA"
      unfolding n' by simp
  }
  {
    fix n assume a: "9 * clk_div + 2 \<le> n + ?h \<and> n + ?h \<le> 10 * clk_div + 1"
    define k where "k = n - (?t + 8 * clk_div)"
    from a h have n: "n = ?t + 8 * clk_div + k" and k: "k < clk_div" unfolding k_def by linarith+
    from bit_phase[OF assms _ k, of 8 B] show "fsm (after clk_div ?F n) = RX_STOP"
      unfolding n by simp
  }
  {
    fix n assume a: "10 * clk_div + 2 \<le> n + ?h \<and> n \<le> 10 * clk_div"
    define k where "k = n - (?t + 9 * clk_div)"
    from a h have n: "n = ?t + 9 * clk_div + k" unfolding k_def by linarith
    from full_phase[OF assms, of B k]
    show "fsm (after clk_div ?F n) = RX_FULL" "rx_buf (after clk_div ?F n) = B"
      unfolding n by simp_all
  }
qed

theorem round_trip_decode_witness:
  "fsm (after 24 (uart_rx_byte 24 0xAF) 1) = RX_START
   \<and> fsm (after 24 (uart_rx_byte 24 0xAF) 38) = RX_DATA
   \<and> fsm (after 24 (uart_rx_byte 24 0xAF) 229) = RX_STOP
   \<and> fsm (after 24 (uart_rx_byte 24 0xAF) 230) = RX_FULL
   \<and> rx_buf (after 24 (uart_rx_byte 24 0xAF) 240) = 0xAF"
proof -
  have "(4::nat) \<le> 24" by simp
  from round_trip_decode[OF this, of "0xAF"]
  have s: "\<forall>n. 1 \<le> n \<and> n + 24 div 2 \<le> 24 + 1
            \<longrightarrow> fsm (after 24 (uart_rx_byte 24 0xAF) n) = RX_START"
    and d: "\<forall>n. 24 + 2 \<le> n + 24 div 2 \<and> n + 24 div 2 \<le> 9 * 24 + 1
            \<longrightarrow> fsm (after 24 (uart_rx_byte 24 0xAF) n) = RX_DATA"
    and p: "\<forall>n. 9 * 24 + 2 \<le> n + 24 div 2 \<and> n + 24 div 2 \<le> 10 * 24 + 1
            \<longrightarrow> fsm (after 24 (uart_rx_byte 24 0xAF) n) = RX_STOP"
    and f: "\<forall>n. 10 * 24 + 2 \<le> n + 24 div 2 \<and> n \<le> 10 * 24
            \<longrightarrow> fsm (after 24 (uart_rx_byte 24 0xAF) n) = RX_FULL
                \<and> rx_buf (after 24 (uart_rx_byte 24 0xAF) n) = 0xAF"
    by blast+
  from s[rule_format, of 1] d[rule_format, of 38] p[rule_format, of 229]
    f[rule_format, of 230] f[rule_format, of 240]
  show ?thesis by simp
qed

text \<open>
  C4. In the full state, \<open>rx_ack\<close> leads to the idle state, also while the line is low;
  without \<open>rx_ack\<close>, a low line leads to the error state and a high line keeps the full
  state.
\<close>

theorem full_ack_priority:
  "fsm s = RX_FULL \<Longrightarrow>
   (rx_ack s \<longrightarrow> fsm (rx_step clk_div rx s) = RX_IDLE)
   \<and> (\<not> rx_ack s \<and> \<not> rx \<longrightarrow> fsm (rx_step clk_div rx s) = RX_ERROR)
   \<and> (\<not> rx_ack s \<and> rx \<longrightarrow> fsm (rx_step clk_div rx s) = RX_FULL)"
  by (simp add: rx_step_def Let_def)

theorem full_ack_priority_witness:
  "fsm (rx_step 24 False (rx_reset\<lparr>fsm := RX_FULL, rx_ack := True\<rparr>)) = RX_IDLE
   \<and> fsm (rx_step 24 False (rx_reset\<lparr>fsm := RX_FULL\<rparr>)) = RX_ERROR
   \<and> fsm (rx_step 24 True (rx_reset\<lparr>fsm := RX_FULL\<rparr>)) = RX_FULL"
  using full_ack_priority[of "rx_reset\<lparr>fsm := RX_FULL, rx_ack := True\<rparr>" 24 False]
    full_ack_priority[of "rx_reset\<lparr>fsm := RX_FULL\<rparr>" 24 False]
    full_ack_priority[of "rx_reset\<lparr>fsm := RX_FULL\<rparr>" 24 True]
  by (simp add: rx_reset_def)

text \<open>
  C5. In the stop state, a strobe with the line low leads to the error state. From the
  error state with \<open>rx_fix\<close> clear, whatever the test bench does to the line and to
  \<open>rx_ack\<close> and however many clock edges pass, the state stays the error state as long as
  \<open>rx_fix\<close> is not set; setting \<open>rx_fix\<close> leads to the idle state at the next clock edge.
\<close>

theorem error_sticky:
  "(fsm s = RX_STOP \<and> rx_strobe s \<longrightarrow> fsm (rx_step clk_div False s) = RX_ERROR)
   \<and> (fsm s = RX_ERROR \<and> \<not> rx_fix s \<and> Set_fix True \<notin> set cmds
        \<longrightarrow> fsm (snd (exec_all clk_div cmds (rx, s))) = RX_ERROR)
   \<and> (fsm s = RX_ERROR
        \<longrightarrow> fsm (snd (exec_all clk_div [Set_fix True, Tick] (rx, s))) = RX_IDLE)"
proof (intro conjI impI)
  assume "fsm s = RX_STOP \<and> rx_strobe s"
  then show "fsm (rx_step clk_div False s) = RX_ERROR"
    by (simp add: rx_step_def Let_def)
next
  assume "fsm s = RX_ERROR \<and> \<not> rx_fix s \<and> Set_fix True \<notin> set cmds"
  then show "fsm (snd (exec_all clk_div cmds (rx, s))) = RX_ERROR"
    using exec_all_error_inv[of "(rx, s)" cmds clk_div] by simp
next
  assume "fsm s = RX_ERROR"
  then show "fsm (snd (exec_all clk_div [Set_fix True, Tick] (rx, s))) = RX_IDLE"
    by (simp add: rx_step_def Let_def)
qed

theorem error_sticky_witness:
  "fsm (rx_step 24 False (rx_reset\<lparr>fsm := RX_STOP\<rparr>)) = RX_ERROR
   \<and> fsm (snd (exec_all 24 [Set_rx False, Tick, Set_ack True, Set_rx True, Tick, Tick]
                 (True, rx_reset\<lparr>fsm := RX_ERROR\<rparr>))) = RX_ERROR
   \<and> fsm (snd (exec_all 24 [Set_fix True, Tick] (True, rx_reset\<lparr>fsm := RX_ERROR\<rparr>)))
       = RX_IDLE"
  using error_sticky[of "rx_reset\<lparr>fsm := RX_STOP\<rparr>" 24 "[]" True]
    error_sticky[of "rx_reset\<lparr>fsm := RX_ERROR\<rparr>" 24
      "[Set_rx False, Tick, Set_ack True, Set_rx True, Tick, Tick]" True]
  by (simp add: rx_reset_def rx_strobe_def)

text \<open>
  C7, as stated: a strobe in the data state stores the line at the bit position given by
  \<open>rx_bit\<close>, so that the first bit is at position 0 once it is latched. With an empty buffer
  and \<open>rx_bit\<close> 0, a high line gives the buffer 128: the bit is at position 7, and position
  0 is clear.
\<close>

theorem data_bit_position_counterexample:
  "fsm (rx_reset\<lparr>fsm := RX_DATA\<rparr>) = RX_DATA
   \<and> rx_strobe (rx_reset\<lparr>fsm := RX_DATA\<rparr>)
   \<and> rx_bit (rx_reset\<lparr>fsm := RX_DATA\<rparr>) = 0
   \<and> rx_buf (rx_step 24 True (rx_reset\<lparr>fsm := RX_DATA\<rparr>)) = 128
   \<and> \<not> bit (rx_buf (rx_step 24 True (rx_reset\<lparr>fsm := RX_DATA\<rparr>))) 0"
  by (simp add: rx_step_def Let_def rx_reset_def rx_strobe_def cat_rx_def)

text \<open>
  C7, amended. A strobe in the data state moves bits 1 to 7 of the buffer down by one
  position and stores the line at position 7, whatever \<open>rx_bit\<close> is; \<open>rx_bit\<close> is
  incremented by 1 and wraps from 7 to 0.
\<close>

theorem data_shift_in:
  "fsm s = RX_DATA \<Longrightarrow> rx_strobe s \<Longrightarrow>
   (\<forall>n. bit (rx_buf (rx_step clk_div rx s)) n
          = (if n = 7 then rx else n < 7 \<and> bit (rx_buf s) (Suc n)))
   \<and> rx_bit (rx_step clk_div rx s) = rx_bit s + 1
   \<and> unat (rx_bit (rx_step clk_div rx s)) = Suc (unat (rx_bit s)) mod 8"
proof -
  assume a: "fsm s = RX_DATA" "rx_strobe s"
  have "bit (cat_rx buf rx) n = (if n = 7 then rx else n < 7 \<and> bit buf (Suc n))" for buf n
    by (auto simp: cat_rx_def bit_simps dest: bit_imp_le_length)
  moreover have "unat (rx_bit s + 1) = Suc (unat (rx_bit s)) mod 8"
    by (simp add: unat_word_ariths)
  ultimately show ?thesis using a by (simp add: rx_step_def Let_def)
qed

theorem data_shift_in_witness:
  "rx_buf (rx_step 24 True (rx_reset\<lparr>fsm := RX_DATA, rx_buf := 3, rx_bit := 7\<rparr>)) = 129
   \<and> rx_bit (rx_step 24 True (rx_reset\<lparr>fsm := RX_DATA, rx_buf := 3, rx_bit := 7\<rparr>)) = 0"
proof -
  let ?s = "rx_reset\<lparr>fsm := RX_DATA, rx_buf := 3, rx_bit := 7\<rparr>"
  have "fsm ?s = RX_DATA" "rx_strobe ?s" by (simp_all add: rx_reset_def rx_strobe_def)
  from data_shift_in[OF this, of 24 True]
  have b: "\<forall>n. bit (rx_buf (rx_step 24 True ?s)) n
          = (if n = 7 then True else n < 7 \<and> bit (rx_buf ?s) (Suc n))"
    and c: "rx_bit (rx_step 24 True ?s) = rx_bit ?s + 1" by simp_all
  have "rx_buf (rx_step 24 True ?s) = 129"
  proof (rule bit_word_eqI)
    fix n assume "n < LENGTH(8)"
    then have "n \<in> {0, 1, 2, 3, 4, 5, 6, 7}" by auto
    then show "bit (rx_buf (rx_step 24 True ?s)) n = bit (129 :: 8 word) n"
      using b by (auto simp: rx_reset_def bit_numeral_simps)
  qed
  with c show ?thesis by (simp add: rx_reset_def)
qed

text \<open>
  C8, as stated: no clock edge changes \<open>rx_ack\<close> or \<open>rx_fix\<close>. In the idle state with
  \<open>rx_ack\<close> and \<open>rx_fix\<close> set, a low line clears both.
\<close>

theorem ack_fix_written_counterexample:
  "rx_ack (rx_reset\<lparr>rx_ack := True, rx_fix := True\<rparr>)
   \<and> rx_fix (rx_reset\<lparr>rx_ack := True, rx_fix := True\<rparr>)
   \<and> \<not> rx_ack (rx_step 24 False (rx_reset\<lparr>rx_ack := True, rx_fix := True\<rparr>))
   \<and> \<not> rx_fix (rx_step 24 False (rx_reset\<lparr>rx_ack := True, rx_fix := True\<rparr>))"
  by (simp add: rx_step_def Let_def rx_reset_def)

text \<open>
  C8, amended. A clock edge clears \<open>rx_ack\<close> and \<open>rx_fix\<close> when the state machine leaves
  the idle state, that is in the idle state with the line low, and leaves both unchanged in
  every other case.
\<close>

theorem ack_fix_written_leaving_idle:
  "(fsm s = RX_IDLE \<and> \<not> rx
      \<longrightarrow> \<not> rx_ack (rx_step clk_div rx s) \<and> \<not> rx_fix (rx_step clk_div rx s))
   \<and> (\<not> (fsm s = RX_IDLE \<and> \<not> rx)
      \<longrightarrow> rx_ack (rx_step clk_div rx s) = rx_ack s
          \<and> rx_fix (rx_step clk_div rx s) = rx_fix s)"
  by (cases "fsm s") (simp_all add: rx_step_def Let_def)

theorem ack_fix_written_leaving_idle_witness:
  "\<not> rx_ack (rx_step 24 False (rx_reset\<lparr>rx_ack := True\<rparr>))
   \<and> rx_ack (rx_step 24 True (rx_reset\<lparr>rx_ack := True\<rparr>))
   \<and> rx_fix (rx_step 24 False (rx_reset\<lparr>fsm := RX_ERROR, rx_fix := True\<rparr>))"
  using ack_fix_written_leaving_idle[of "rx_reset\<lparr>rx_ack := True\<rparr>" False 24]
    ack_fix_written_leaving_idle[of "rx_reset\<lparr>rx_ack := True\<rparr>" True 24]
    ack_fix_written_leaving_idle[of "rx_reset\<lparr>fsm := RX_ERROR, rx_fix := True\<rparr>" False 24]
  by (simp add: rx_reset_def)

section \<open>The transmitter\<close>

text \<open>
  C9. No clock edge of the transmitter assigns \<open>tx\<close>: it keeps its value at every edge, and
  from reset it is 0, the low level, after any number of edges.
\<close>

theorem tx_never_driven:
  "tx (tx_step clk_div s) = tx s \<and> tx ((tx_step clk_div ^^ n) tx_reset) = False"
proof
  show "tx (tx_step clk_div s) = tx s" by (simp add: tx_step_def)
  show "tx ((tx_step clk_div ^^ n) tx_reset) = False"
    by (induction n) (simp_all add: tx_step_def tx_reset_def)
qed

end
